theory Spec2Isabelle
  imports Complex_Main "HOL-Library.Multiset"
begin

section \<open>The D'Hondt simulator: data model\<close>

text \<open>
  The vote table is a pandas DataFrame with the columns \<open>Partido\<close> and \<open>Votos\<close>; every row
  also carries its index label. The table is modelled as the list of its rows in order.
\<close>

record row =
  label :: nat
  Partido :: string
  Votos :: int

text \<open>
  A row of the quotient frame \<open>q\<close> built by \<open>dhondt\<close>: the dictionary
  \<open>{"idx", "Partido", "Divisor", "Cociente"}\<close>. \<open>Cociente\<close> is Python's true division
  \<open>v / d\<close> of two integers; it is modelled by the exact rational, of which the Python float
  is the correctly rounded value. Rounding keeps the order of two quotients, and it keeps
  two different quotients apart as long as the votes stay below some 10^11 (two different
  quotients with divisors up to 200 differ by at least 1/40000, more than the spacing of
  floats of that size), so that in this range the floats compare as the rationals do.
\<close>

record qrow =
  idx :: nat
  q_Partido :: string
  Divisor :: int
  Cociente :: rat

text \<open>The quotient frame after the columns \<open>Rank\<close> and \<open>GanaEscano\<close> are added.\<close>

record ranked = qrow +
  Rank :: int
  GanaEscano :: bool

text \<open>
  A table built from an ordered sequence of (name, votes) pairs gets the default
  \<open>RangeIndex\<close>: the labels are the positions 0, 1, 2, ...
\<close>

definition frame :: "(string \<times> int) list \<Rightarrow> row list" where
  "frame ps = map (\<lambda>(i, (n, v)). \<lparr>label = i, Partido = n, Votos = v\<rparr>) (enumerate 0 ps)"

section \<open>The library sort\<close>

text \<open>
  \<open>dhondt\<close> sorts with \<open>DataFrame.sort_values("Cociente", ascending=False)\<close> and leaves the
  sorting algorithm at its default, \<open>kind="quicksort"\<close>. What pandas promises for it is that
  the result is a rearrangement of the rows with the key column in non-increasing order; only
  the kinds \<open>"mergesort"\<close> and \<open>"stable"\<close> are documented to keep the input order of rows with
  equal keys. The sort is therefore a parameter of the model, constrained by that contract.
\<close>

definition sort_values_contract :: "(('a \<Rightarrow> 'k::linorder) \<Rightarrow> 'a list \<Rightarrow> 'a list) \<Rightarrow> bool" where
  "sort_values_contract sort_values =
     (\<forall>key xs. mset (sort_values key xs) = mset xs \<and> sorted (rev (map key (sort_values key xs))))"

text \<open>
  A stable descending sort, the way pandas computes a descending order with a stable kind:
  reverse, sort ascending and stably, reverse again. Rows with equal keys keep their order.
\<close>

definition sort_values_stable :: "('a \<Rightarrow> 'k::linorder) \<Rightarrow> 'a list \<Rightarrow> 'a list" where
  "sort_values_stable key xs = rev (sort_key key (rev xs))"


section \<open>The allocator \<open>dhondt\<close>\<close>

text \<open>
  The nested loops that fill \<open>rows\<close>: for every row of the table in order, for every divisor
  \<open>d\<close> in \<open>range(1, seats_ + 1)\<close>, one dictionary with the quotient \<open>v / d\<close>.
\<close>

definition quotient_rows :: "row list \<Rightarrow> int \<Rightarrow> qrow list" where
  "quotient_rows df seats =
     concat (map (\<lambda>r. map (\<lambda>d. \<lparr>idx = label r, q_Partido = Partido r, Divisor = d,
                                  Cociente = of_int (Votos r) / of_int d\<rparr>) [1..seats]) df)"

text \<open>
  \<open>q["Rank"] = q.index + 1\<close> and \<open>q["GanaEscano"] = q["Rank"] <= seats_\<close>, on the frame
  whose index was reset by \<open>ignore_index=True\<close>.
\<close>

definition add_rank :: "int \<Rightarrow> qrow list \<Rightarrow> ranked list" where
  "add_rank seats q =
     map (\<lambda>(i, e). \<lparr>idx = idx e, q_Partido = q_Partido e, Divisor = Divisor e,
                     Cociente = Cociente e, Rank = int i + 1, GanaEscano = (int i + 1 \<le> seats)\<rparr>)
       (enumerate 0 q)"

text \<open>
  \<open>alloc.loc[l] += 1\<close> on the series \<open>alloc\<close>, kept as the list of its (label, value) pairs
  in index order: every position whose label is \<open>l\<close> is incremented.
\<close>

definition loc_incr :: "nat \<Rightarrow> (nat \<times> int) list \<Rightarrow> (nat \<times> int) list" where
  "loc_incr l alloc = map (\<lambda>(k, c). if k = l then (k, c + 1) else (k, c)) alloc"

definition dhondt ::
  "((qrow \<Rightarrow> rat) \<Rightarrow> qrow list \<Rightarrow> qrow list) \<Rightarrow> row list \<Rightarrow> int
     \<Rightarrow> (nat \<times> int) list \<times> ranked list" where
  "dhondt sort_values df seats =
     (if df = [] \<or> seats \<le> 0 then ([], [])
      else
        let q = add_rank seats (sort_values Cociente (quotient_rows df seats));
            alloc0 = map (\<lambda>r. (label r, 0)) df;
            alloc = foldl (\<lambda>a r. loc_incr (idx r) a) alloc0 (filter GanaEscano q)
        in (alloc, q))"


section \<open>Floating-point columns\<close>

text \<open>
  The percentage column, the normalizer and the quotient matrix compute on float64 columns.
  A float is modelled by the exact rational it stands for, or by one of the three special
  values \<open>inf\<close>, \<open>-inf\<close> and \<open>NaN\<close>, which are what a division by zero and a cell
  that is not a number become. The rounding errors of the binary representation, and
  integers beyond 64 bits, are not part of the model.
\<close>

datatype float64 = Finite rat | PosInf | NegInf | NaN




text \<open>
  \<open>.round(n)\<close> rounds to \<open>n\<close> decimals, a value halfway between two neighbours to the
  one whose last digit is even (numpy's rule); \<open>.round()\<close> is \<open>.round(0)\<close>.
\<close>

definition round_half_even :: "rat \<Rightarrow> int" where
  "round_half_even x =
     (let f = \<lfloor>x\<rfloor>; d = x - of_int f
      in if d < 1 / 2 then f else if 1 / 2 < d then f + 1 else if even f then f else f + 1)"

fun round_decimals :: "nat \<Rightarrow> float64 \<Rightarrow> float64" where
  "round_decimals n (Finite q) = Finite (of_int (round_half_even (q * 10 ^ n)) / 10 ^ n)"
| "round_decimals n x = x"


section \<open>The normalizer \<open>sanitize\<close>\<close>





text \<open>
  \<open>.astype(int)\<close> truncates a finite float towards zero and raises on \<open>NaN\<close> and on the
  infinities.
\<close>

datatype error = IntCastingNaNError

fun astype_int :: "float64 \<Rightarrow> error + int" where
  "astype_int (Finite q) = Inr (if 0 \<le> q then \<lfloor>q\<rfloor> else \<lceil>q\<rceil>)"
| "astype_int x = Inl IntCastingNaNError"





section \<open>The quotient matrix \<open>quotient_matrix_top4\<close>\<close>












section \<open>Auxiliary facts\<close>

lemma length_add_rank: "length (add_rank seats q) = length q"
  by (simp add: add_rank_def)

lemma add_rank_nth:
  "i < length q \<Longrightarrow> add_rank seats q ! i =
     \<lparr>idx = idx (q ! i), q_Partido = q_Partido (q ! i), Divisor = Divisor (q ! i),
      Cociente = Cociente (q ! i), Rank = int i + 1, GanaEscano = (int i + 1 \<le> seats)\<rparr>"
  by (simp add: add_rank_def nth_enumerate_eq)

lemma map_truncate_add_rank: "map qrow.truncate (add_rank seats q) = q"
  by (rule nth_equalityI) (simp_all add: length_add_rank add_rank_nth qrow.truncate_def)

lemma map_idx_add_rank: "map idx (add_rank seats q) = map idx q"
  by (rule nth_equalityI) (simp_all add: length_add_rank add_rank_nth)

lemma map_Cociente_add_rank: "map Cociente (add_rank seats q) = map Cociente q"
  by (rule nth_equalityI) (simp_all add: length_add_rank add_rank_nth)

lemma filter_enumerate_rank:
  "filter (\<lambda>(i, e). int i + 1 \<le> seats) (enumerate n q) = take (nat seats - n) (enumerate n q)"
proof (induction q arbitrary: n)
  case Nil
  then show ?case by simp
next
  case (Cons a q)
  show ?case
  proof (cases "int n + 1 \<le> seats")
    case True
    then have "nat seats - n = Suc (nat seats - Suc n)" by linarith
    with True Cons[of "Suc n"] show ?thesis by simp
  next
    case False
    then have z: "nat seats - n = 0" "nat seats - Suc n = 0" by linarith+
    from False Cons[of "Suc n"] z show ?thesis by simp
  qed
qed

lemma winners_add_rank:
  "filter GanaEscano (add_rank seats q) = take (nat seats) (add_rank seats q)"
proof -
  have "filter GanaEscano (add_rank seats q) =
        map (\<lambda>(i, e). \<lparr>idx = idx e, q_Partido = q_Partido e, Divisor = Divisor e,
                     Cociente = Cociente e, Rank = int i + 1, GanaEscano = (int i + 1 \<le> seats)\<rparr>)
          (filter (\<lambda>(i, e). int i + 1 \<le> seats) (enumerate 0 q))"
    unfolding add_rank_def filter_map
    by (rule arg_cong[where f="map _"], rule filter_cong) auto
  then show ?thesis
    by (simp add: filter_enumerate_rank add_rank_def take_map)
qed

lemma foldl_loc_incr:
  "foldl (\<lambda>a r. loc_incr (idx r) a) alloc ws =
     map (\<lambda>(k, c). (k, c + int (count_list (map idx ws) k))) alloc"
proof (induction ws arbitrary: alloc)
  case Nil
  then show ?case by simp
next
  case (Cons w ws)
  have "foldl (\<lambda>a r. loc_incr (idx r) a) (w_alloc) ws =
     map (\<lambda>(k, c). (k, c + int (count_list (map idx ws) k))) w_alloc" for w_alloc
    by (rule Cons)
  then show ?case
    by (auto simp add: loc_incr_def)
qed

lemma dhondt_alloc:
  assumes "df \<noteq> []" "0 < seats"
  shows "fst (dhondt sv df seats) =
     map (\<lambda>r. (label r, int (count_list (map idx (take (nat seats) (sv Cociente (quotient_rows df seats)))) (label r)))) df"
  using assms
  by (simp add: dhondt_def Let_def foldl_loc_incr winners_add_rank o_def
      take_map[symmetric] map_idx_add_rank)

lemma dhondt_table:
  assumes "df \<noteq> []" "0 < seats"
  shows "snd (dhondt sv df seats) = add_rank seats (sv Cociente (quotient_rows df seats))"
  using assms by (simp add: dhondt_def Let_def)

lemma length_quotient_rows: "length (quotient_rows df seats) = length df * nat seats"
  by (induction df) (simp_all add: quotient_rows_def)

lemma set_quotient_rows:
  "set (quotient_rows df seats) =
     {\<lparr>idx = label r, q_Partido = Partido r, Divisor = d, Cociente = of_int (Votos r) / of_int d\<rparr>
        | r d. r \<in> set df \<and> 1 \<le> d \<and> d \<le> seats}"
  by (fastforce simp: quotient_rows_def)

lemma idx_quotient_rows: "e \<in> set (quotient_rows df seats) \<Longrightarrow> idx e \<in> label ` set df"
  by (auto simp: set_quotient_rows)

lemma distinct_quotient_rows:
  "distinct (map label df) \<Longrightarrow> distinct (quotient_rows df seats)"
proof (induction df)
  case Nil
  then show ?case by (simp add: quotient_rows_def)
next
  case (Cons r df)
  have split: "quotient_rows (r # df) seats =
      map (\<lambda>d. \<lparr>idx = label r, q_Partido = Partido r, Divisor = d,
                 Cociente = of_int (Votos r) / of_int d\<rparr>) [1..seats] @ quotient_rows df seats"
    by (simp add: quotient_rows_def)
  have d1: "distinct (map (\<lambda>d. \<lparr>idx = label r, q_Partido = Partido r, Divisor = d,
                 Cociente = of_int (Votos r) / of_int d\<rparr>) [1..seats])"
    by (simp add: distinct_map inj_on_def)
  have d2: "distinct (quotient_rows df seats)"
    using Cons by simp
  have "label r \<notin> label ` set df" using Cons.prems by auto
  then have d3: "idx e \<noteq> label r" if "e \<in> set (quotient_rows df seats)" for e
    using idx_quotient_rows[OF that] by auto
  have d4: "set (map (\<lambda>d. \<lparr>idx = label r, q_Partido = Partido r, Divisor = d,
                 Cociente = of_int (Votos r) / of_int d\<rparr>) [1..seats]) \<inter> set (quotient_rows df seats) = {}"
    using d3 by fastforce
  show ?case
    unfolding split distinct_append using d1 d2 d4 by blast
qed

lemma contract_mset: "sort_values_contract sv \<Longrightarrow> mset (sv key xs) = mset xs"
  by (simp add: sort_values_contract_def)

lemma contract_sorted: "sort_values_contract sv \<Longrightarrow> sorted (rev (map key (sv key xs)))"
  by (simp add: sort_values_contract_def)

lemma contract_set: "sort_values_contract sv \<Longrightarrow> set (sv key xs) = set xs"
  using contract_mset mset_eq_setD by blast

lemma contract_length: "sort_values_contract sv \<Longrightarrow> length (sv key xs) = length xs"
  using contract_mset mset_eq_length by blast

lemma contract_distinct: "sort_values_contract sv \<Longrightarrow> distinct (sv key xs) = distinct xs"
  using contract_mset mset_eq_imp_distinct_iff by blast

lemma sum_count_list:
  "distinct ls \<Longrightarrow> set W \<subseteq> set ls \<Longrightarrow> (\<Sum>l\<leftarrow>ls. int (count_list W l)) = int (length W)"
proof (induction W)
  case Nil
  then show ?case by simp
next
  case (Cons w W)
  have zero: "w \<notin> set ks \<Longrightarrow> (\<Sum>l\<leftarrow>ks. (if w = l then 1 else 0)) = (0::int)" for ks
    by (induction ks) auto
  have "distinct ks \<Longrightarrow> w \<in> set ks \<Longrightarrow> (\<Sum>l\<leftarrow>ks. (if w = l then 1 else 0)) = (1::int)" for ks
    by (induction ks) (auto simp: zero)
  then have one: "(\<Sum>l\<leftarrow>ls. (if w = l then 1 else 0)) = (1::int)"
    using Cons.prems by simp
  have "(\<Sum>l\<leftarrow>ls. int (count_list (w # W) l)) =
        (\<Sum>l\<leftarrow>ls. int (count_list W l) + (if w = l then 1 else 0))"
    by (rule arg_cong[where f=sum_list], rule map_cong) auto
  also have "\<dots> = (\<Sum>l\<leftarrow>ls. int (count_list W l)) + (\<Sum>l\<leftarrow>ls. (if w = l then 1 else 0))"
    by (simp add: sum_list_addf)
  finally show ?case using Cons one by simp
qed

lemma dhondt_alloc_sum:
  assumes sv: "sort_values_contract sv" and df: "df \<noteq> []" "distinct (map label df)"
    and seats: "0 < seats"
  shows "sum_list (map snd (fst (dhondt sv df seats))) = seats"
proof -
  let ?q = "sv Cociente (quotient_rows df seats)"
  let ?W = "map idx (take (nat seats) ?q)"
  have len: "length ?q = length df * nat seats"
    by (simp add: contract_length[OF sv] length_quotient_rows)
  have "length df \<ge> 1" using df by (cases df) auto
  then have "nat seats \<le> length ?q" unfolding len by simp
  then have lenW: "length ?W = nat seats" by simp
  have "set (take (nat seats) ?q) \<subseteq> set (quotient_rows df seats)"
    using set_take_subset[of "nat seats" ?q] contract_set[OF sv] by blast
  then have sub: "set ?W \<subseteq> set (map label df)"
    using idx_quotient_rows by fastforce
  have "sum_list (map snd (fst (dhondt sv df seats))) = (\<Sum>l\<leftarrow>map label df. int (count_list ?W l))"
    by (simp add: dhondt_alloc[OF df(1) seats] o_def)
  also have "\<dots> = int (length ?W)"
    by (rule sum_count_list[OF df(2) sub])
  finally show ?thesis using lenW seats by simp
qed

lemma frame_label: "map label (frame ps) = [0..<length ps]"
  by (simp add: frame_def case_prod_unfold o_def) 

lemma frame_nil: "frame ps = [] \<longleftrightarrow> ps = []"
  by (cases ps) (simp_all add: frame_def)

lemma length_frame: "length (frame ps) = length ps"
  by (simp add: frame_def)

lemma frame_nth: "i < length ps \<Longrightarrow> frame ps ! i = \<lparr>label = i, Partido = fst (ps ! i), Votos = snd (ps ! i)\<rparr>"
  by (simp add: frame_def nth_enumerate_eq case_prod_unfold)

lemma stable_contract: "sort_values_contract sort_values_stable"
  by (simp add: sort_values_contract_def sort_values_stable_def rev_map)


lemma sorted_desc_iff: "sorted (rev (map key q)) = sorted_wrt (\<lambda>x y. key y \<le> key x) q"
  by (simp add: sorted_wrt_rev sorted_wrt_map)

lemma sorted_desc_split:
  "sorted (rev (map key q)) \<Longrightarrow>
     q = filter (\<lambda>x. t \<le> key x) q @ filter (\<lambda>x. \<not> t \<le> key x) q"
  unfolding sorted_desc_iff
proof (induction q)
  case Nil
  then show ?case by simp
next
  case (Cons a q)
  show ?case
  proof (cases "t \<le> key a")
    case True
    with Cons show ?thesis by simp
  next
    case False
    from Cons.prems have "\<forall>x \<in> set q. key x \<le> key a" by simp
    with False have "\<forall>x \<in> set q. \<not> t \<le> key x" by auto
    then have "filter (\<lambda>x. t \<le> key x) q = []" "filter (\<lambda>x. \<not> t \<le> key x) q = q"
      by (simp_all add: filter_empty_conv filter_id_conv)
    with False show ?thesis by simp
  qed
qed

lemma take_threshold:
  assumes "sorted (rev (map key q))"
  shows "take (length (filter (\<lambda>x. t \<le> key x) q)) q = filter (\<lambda>x. t \<le> key x) q"
proof -
  have "take (length (filter (\<lambda>x. t \<le> key x) q)) (filter (\<lambda>x. t \<le> key x) q @ filter (\<lambda>x. \<not> t \<le> key x) q)
      = filter (\<lambda>x. t \<le> key x) q"
    by simp
  then show ?thesis
    using sorted_desc_split[OF assms, of t] by simp
qed

lemma contract_take_threshold:
  assumes sv: "sort_values_contract sv"
    and n: "length (filter (\<lambda>x. t \<le> key x) xs) = n"
  shows "mset (take n (sv key xs)) = mset (filter (\<lambda>x. t \<le> key x) xs)"
proof -
  have m: "mset (filter (\<lambda>x. t \<le> key x) (sv key xs)) = mset (filter (\<lambda>x. t \<le> key x) xs)"
    by (simp add: contract_mset[OF sv])
  then have "length (filter (\<lambda>x. t \<le> key x) (sv key xs)) = n"
    using n mset_eq_length by fastforce
  then show ?thesis
    using take_threshold[OF contract_sorted[OF sv, of key xs], where t=t] m by simp
qed

lemma count_list_mset_cong: "mset xs = mset ys \<Longrightarrow> count_list xs k = count_list ys k"
  by (metis count_mset)

lemma dhondt_alloc_threshold:
  assumes sv: "sort_values_contract sv" and df: "df \<noteq> []" and seats: "0 < seats"
    and n: "length (filter (\<lambda>e. t \<le> Cociente e) (quotient_rows df seats)) = nat seats"
  shows "fst (dhondt sv df seats) =
     map (\<lambda>r. (label r, int (count_list
        (map idx (filter (\<lambda>e. t \<le> Cociente e) (quotient_rows df seats))) (label r)))) df"
proof -
  have "mset (map idx (take (nat seats) (sv Cociente (quotient_rows df seats)))) =
        mset (map idx (filter (\<lambda>e. t \<le> Cociente e) (quotient_rows df seats)))"
    using contract_take_threshold[OF sv n] by (metis mset_map)
  then show ?thesis
    unfolding dhondt_alloc[OF df seats]
    by (simp add: count_list_mset_cong)
qed

lemma ranked_of_taken:
  assumes "e \<in> set (take (nat seats) q)"
  shows "\<exists>r \<in> set (add_rank seats q). qrow.truncate r = e \<and> Rank r \<le> seats \<and> GanaEscano r"
proof -
  from assms obtain i where i: "i < length (take (nat seats) q)" "take (nat seats) q ! i = e"
    by (auto simp: in_set_conv_nth)
  then have il: "i < length q" "i < nat seats" "q ! i = e" by auto
  then have "int i + 1 \<le> seats" by linarith
  with il have "qrow.truncate (add_rank seats q ! i) = e \<and> Rank (add_rank seats q ! i) \<le> seats \<and>
        GanaEscano (add_rank seats q ! i)"
    by (simp add: add_rank_nth qrow.truncate_def)
  moreover have "add_rank seats q ! i \<in> set (add_rank seats q)"
    using il by (simp add: length_add_rank)
  ultimately show ?thesis by blast
qed





lemma count_list_map_filter: "count_list (map f xs) k = length (filter (\<lambda>x. f x = k) xs)"
  by (induction xs) auto

lemma sorted_desc_take_drop:
  assumes "sorted (rev (map key q))" and "x \<in> set (take n q)" and "y \<in> set (drop n q)"
  shows "key y \<le> key x"
proof -
  have "sorted_wrt (\<lambda>x y. key y \<le> key x) (take n q @ drop n q)"
    using assms(1) by (simp add: sorted_desc_iff)
  then show ?thesis
    using assms(2,3) unfolding sorted_wrt_append by blast
qed

lemma in_take_or_drop: "x \<in> set q \<Longrightarrow> x \<notin> set (take n q) \<Longrightarrow> x \<in> set (drop n q)"
  by (metis Un_iff append_take_drop_id set_append)

lemma set_update_other:
  assumes "i < length df"
  shows "{x \<in> set (df[i := r']). x \<noteq> r' \<and> x \<noteq> df ! i} = {x \<in> set df. x \<noteq> r' \<and> x \<noteq> df ! i}"
proof (intro set_eqI iffI)
  fix x assume "x \<in> {x \<in> set (df[i := r']). x \<noteq> r' \<and> x \<noteq> df ! i}"
  then show "x \<in> {x \<in> set df. x \<noteq> r' \<and> x \<noteq> df ! i}"
    using set_update_subset_insert[of df i r'] by auto
next
  fix x assume "x \<in> {x \<in> set df. x \<noteq> r' \<and> x \<noteq> df ! i}"
  then obtain j where j: "j < length df" "df ! j = x" "x \<noteq> r'" "x \<noteq> df ! i"
    by (auto simp: in_set_conv_nth)
  then have "j \<noteq> i" by auto
  with j have "df[i := r'] ! j = x" by simp
  with j show "x \<in> {x \<in> set (df[i := r']). x \<noteq> r' \<and> x \<noteq> df ! i}"
    by (metis (mono_tags, lifting) length_list_update mem_Collect_eq nth_mem)
qed

lemma label_unique:
  assumes "distinct (map label df)" and "x \<in> set df" and "y \<in> set df" and "label x = label y"
  shows "x = y"
  using assms by (meson distinct_map inj_on_def)

lemma rows_other_label:
  assumes d: "distinct (map label df)" and i: "i < length df"
    and r': "label r' = label (df ! i)"
  shows "{x \<in> set (df[i := r']). label x \<noteq> label (df ! i)} = {x \<in> set df. label x \<noteq> label (df ! i)}"
  using set_update_other[OF i, of r'] r' by auto

lemma distinct_label_update:
  assumes "distinct (map label df)" and "i < length df" and "label r' = label (df ! i)"
  shows "distinct (map label (df[i := r']))"
proof -
  have "map label (df[i := r']) = (map label df)[i := label r']"
    by (simp add: map_update)
  also have "\<dots> = map label df"
    using assms(2,3) by (simp add: list_update_same_conv)
  finally show ?thesis using assms(1) by simp
qed

lemma quotient_rows_other:
  assumes d: "distinct (map label df)" and i: "i < length df"
    and r': "label r' = label (df ! i)"
  shows "{e \<in> set (quotient_rows (df[i := r']) seats). idx e \<noteq> label (df ! i)} =
         {e \<in> set (quotient_rows df seats). idx e \<noteq> label (df ! i)}"
proof -
  have gen: "{e \<in> set (quotient_rows X seats). idx e \<noteq> l} =
        (\<Union>r \<in> {x \<in> set X. label x \<noteq> l}.
           (\<lambda>d. \<lparr>idx = label r, q_Partido = Partido r, Divisor = d,
                  Cociente = of_int (Votos r) / of_int d\<rparr>) ` {1..seats})" for X l
    by (auto simp: quotient_rows_def)
  show ?thesis
    by (simp only: gen rows_other_label[OF assms])
qed

lemma quotient_rows_own:
  assumes d: "distinct (map label df)" and i: "i < length df"
  shows "{e \<in> set (quotient_rows df seats). idx e = label (df ! i)} =
         (\<lambda>d. \<lparr>idx = label (df ! i), q_Partido = Partido (df ! i), Divisor = d,
            Cociente = of_int (Votos (df ! i)) / of_int d\<rparr>) ` {1..seats}"
proof -
  have uniq: "{x \<in> set df. label x = label (df ! i)} = {df ! i}"
  proof (intro set_eqI iffI)
    fix x assume "x \<in> {x \<in> set df. label x = label (df ! i)}"
    then have "x = df ! i"
      using label_unique[OF d, of x "df ! i"] i by simp
    then show "x \<in> {df ! i}" by simp
  next
    fix x assume "x \<in> {df ! i}"
    then show "x \<in> {x \<in> set df. label x = label (df ! i)}" using i by simp
  qed
  have gen: "{e \<in> set (quotient_rows X seats). idx e = l} =
        (\<Union>r \<in> {x \<in> set X. label x = l}.
           (\<lambda>d. \<lparr>idx = label r, q_Partido = Partido r, Divisor = d,
                  Cociente = of_int (Votos r) / of_int d\<rparr>) ` {1..seats})" for X l
    by (fastforce simp: quotient_rows_def)
  show ?thesis
    by (simp only: gen uniq) simp
qed

lemma own_count:
  assumes sv: "sort_values_contract sv" and d: "distinct (map label df)" and i: "i < length df"
  shows "length (filter (\<lambda>e. idx e = label (df ! i)) (take n (sv Cociente (quotient_rows df seats)))) =
         card (Divisor ` {e \<in> set (take n (sv Cociente (quotient_rows df seats))). idx e = label (df ! i)})"
proof -
  let ?q = "sv Cociente (quotient_rows df seats)"
  let ?l = "label (df ! i)"
  have dq: "distinct (take n ?q)"
    by (simp add: contract_distinct[OF sv] distinct_quotient_rows[OF d])
  have sub: "{e \<in> set (take n ?q). idx e = ?l} \<subseteq> {e \<in> set (quotient_rows df seats). idx e = ?l}"
    using set_take_subset[of n ?q] contract_set[OF sv, of Cociente "quotient_rows df seats"] by auto
  have "inj_on Divisor {e \<in> set (quotient_rows df seats). idx e = ?l}"
    unfolding quotient_rows_own[OF d i] by (auto simp: inj_on_def)
  then have inj: "inj_on Divisor {e \<in> set (take n ?q). idx e = ?l}"
    using sub by (rule inj_on_subset)
  have "length (filter (\<lambda>e. idx e = ?l) (take n ?q)) = card (set (filter (\<lambda>e. idx e = ?l) (take n ?q)))"
    by (rule distinct_card[symmetric], rule distinct_filter, rule dq)
  also have "set (filter (\<lambda>e. idx e = ?l) (take n ?q)) = {e \<in> set (take n ?q). idx e = ?l}"
    by auto
  also have "card \<dots> = card (Divisor ` {e \<in> set (take n ?q). idx e = ?l})"
    using inj by (simp add: card_image)
  finally show ?thesis .
qed

lemma other_count:
  assumes sv: "sort_values_contract sv" and d: "distinct (map label df)"
  shows "length (filter (\<lambda>e. idx e \<noteq> l) (take n (sv Cociente (quotient_rows df seats)))) =
         card {e \<in> set (take n (sv Cociente (quotient_rows df seats))). idx e \<noteq> l}"
proof -
  let ?q = "sv Cociente (quotient_rows df seats)"
  have dq: "distinct (take n ?q)"
    by (simp add: contract_distinct[OF sv] distinct_quotient_rows[OF d])
  have "length (filter (\<lambda>e. idx e \<noteq> l) (take n ?q)) = card (set (filter (\<lambda>e. idx e \<noteq> l) (take n ?q)))"
    by (rule distinct_card[symmetric], rule distinct_filter, rule dq)
  also have "set (filter (\<lambda>e. idx e \<noteq> l) (take n ?q)) = {e \<in> set (take n ?q). idx e \<noteq> l}"
    by auto
  finally show ?thesis .
qed

lemma winners_monotone:
  assumes sv: "sort_values_contract sv" and d: "distinct (map label df)" and i: "i < length df"
    and v: "Votos (df ! i) \<le> v'"
  shows "length (filter (\<lambda>e. idx e = label (df ! i))
            (take n (sv Cociente (quotient_rows df seats))))
       \<le> length (filter (\<lambda>e. idx e = label (df ! i))
            (take n (sv Cociente (quotient_rows (df[i := (df ! i)\<lparr>Votos := v'\<rparr>]) seats))))"
proof (rule ccontr)
  let ?r = "df ! i"
  let ?r' = "?r\<lparr>Votos := v'\<rparr>"
  let ?df' = "df[i := ?r']"
  let ?l = "label ?r"
  let ?E = "quotient_rows df seats"
  let ?E' = "quotient_rows ?df' seats"
  let ?q = "sv Cociente ?E"
  let ?q' = "sv Cociente ?E'"
  let ?T = "take n ?q"
  let ?T' = "take n ?q'"
  let ?k = "length (filter (\<lambda>e. idx e = ?l) ?T)"
  let ?k' = "length (filter (\<lambda>e. idx e = ?l) ?T')"
  assume "\<not> ?k \<le> ?k'"
  then have lt: "?k' < ?k" by simp
  have lr': "label ?r' = label ?r" by simp
  have d': "distinct (map label ?df')"
    by (rule distinct_label_update[OF d i lr'])
  have i': "i < length ?df'" using i by simp
  have nth': "?df' ! i = ?r'" using i by simp
  have l': "label (?df' ! i) = ?l" using nth' by simp
  have lenq: "length ?q' = length ?q"
    by (simp add: contract_length[OF sv] length_quotient_rows)
  then have lenT: "length ?T' = length ?T" by simp
  \<comment> \<open>a divisor with which the row wins before and not after\<close>
  have k: "?k = card (Divisor ` {e \<in> set ?T. idx e = ?l})"
    by (rule own_count[OF sv d i])
  have k': "?k' = card (Divisor ` {e \<in> set ?T'. idx e = ?l})"
    using own_count[OF sv d' i', of n seats] unfolding l' .
  have "\<not> Divisor ` {e \<in> set ?T. idx e = ?l} \<subseteq> Divisor ` {e \<in> set ?T'. idx e = ?l}"
  proof
    assume "Divisor ` {e \<in> set ?T. idx e = ?l} \<subseteq> Divisor ` {e \<in> set ?T'. idx e = ?l}"
    then have "card (Divisor ` {e \<in> set ?T. idx e = ?l}) \<le> card (Divisor ` {e \<in> set ?T'. idx e = ?l})"
      by (intro card_mono) auto
    with lt k k' show False by simp
  qed
  then obtain e where e: "e \<in> set ?T" "idx e = ?l"
    and notin: "Divisor e \<notin> Divisor ` {e \<in> set ?T'. idx e = ?l}"
    by auto
  \<comment> \<open>an entry of another row that wins after and not before\<close>
  have o: "length (filter (\<lambda>e. idx e \<noteq> ?l) ?T) = card {e \<in> set ?T. idx e \<noteq> ?l}"
    by (rule other_count[OF sv d])
  have o': "length (filter (\<lambda>e. idx e \<noteq> ?l) ?T') = card {e \<in> set ?T'. idx e \<noteq> ?l}"
    by (rule other_count[OF sv d'])
  have "?k + length (filter (\<lambda>e. idx e \<noteq> ?l) ?T) = length ?T"
    using sum_length_filter_compl[of "\<lambda>e. idx e = ?l" ?T] by simp
  moreover have "?k' + length (filter (\<lambda>e. idx e \<noteq> ?l) ?T') = length ?T'"
    using sum_length_filter_compl[of "\<lambda>e. idx e = ?l" ?T'] by simp
  ultimately have cardlt: "card {e \<in> set ?T. idx e \<noteq> ?l} < card {e \<in> set ?T'. idx e \<noteq> ?l}"
    using lt lenT o o' by linarith
  have "\<not> {e \<in> set ?T'. idx e \<noteq> ?l} \<subseteq> {e \<in> set ?T. idx e \<noteq> ?l}"
  proof
    assume "{e \<in> set ?T'. idx e \<noteq> ?l} \<subseteq> {e \<in> set ?T. idx e \<noteq> ?l}"
    then have "card {e \<in> set ?T'. idx e \<noteq> ?l} \<le> card {e \<in> set ?T. idx e \<noteq> ?l}"
      by (intro card_mono) auto
    with cardlt show False by simp
  qed
  then obtain x where x: "x \<in> set ?T'" "idx x \<noteq> ?l" "x \<notin> set ?T"
    by auto
  \<comment> \<open>where the two entries stand in the two rankings\<close>
  have "x \<in> set ?E'"
    using x(1) set_take_subset[of n ?q'] contract_set[OF sv, of Cociente ?E'] by auto
  with x(2) have "x \<in> set ?E"
    using quotient_rows_other[OF d i lr', of seats] by blast
  then have xq: "x \<in> set ?q" by (simp add: contract_set[OF sv])
  have xdrop: "x \<in> set (drop n ?q)" by (rule in_take_or_drop[OF xq x(3)])
  have "e \<in> set ?E"
    using e(1) set_take_subset[of n ?q] contract_set[OF sv, of Cociente ?E] by auto
  with e(2) have "e \<in> {e \<in> set ?E. idx e = ?l}" by simp
  then obtain dv where dv: "1 \<le> dv" "dv \<le> seats"
    "e = \<lparr>idx = ?l, q_Partido = Partido ?r, Divisor = dv, Cociente = of_int (Votos ?r) / of_int dv\<rparr>"
    unfolding quotient_rows_own[OF d i] by auto
  define e' where "e' = \<lparr>idx = ?l, q_Partido = Partido ?r, Divisor = dv, Cociente = of_int v' / of_int dv\<rparr>"
  have own': "{e \<in> set ?E'. idx e = ?l} =
      (\<lambda>d. \<lparr>idx = ?l, q_Partido = Partido ?r, Divisor = d, Cociente = of_int v' / of_int d\<rparr>) ` {1..seats}"
    using quotient_rows_own[OF d' i', of seats] unfolding nth' by simp
  have "e' \<in> (\<lambda>d. \<lparr>idx = ?l, q_Partido = Partido ?r, Divisor = d, Cociente = of_int v' / of_int d\<rparr>) ` {1..seats}"
    unfolding e'_def using dv(1,2) by (intro image_eqI[where x=dv]) auto
  then have "e' \<in> {e \<in> set ?E'. idx e = ?l}"
    unfolding own' .
  then have e'E: "e' \<in> set ?E'" by simp
  have e'T: "e' \<notin> set ?T'"
  proof
    assume "e' \<in> set ?T'"
    moreover have "idx e' = ?l" by (simp add: e'_def)
    ultimately have "e' \<in> {e \<in> set ?T'. idx e = ?l}" by simp
    then have "Divisor e' \<in> Divisor ` {e \<in> set ?T'. idx e = ?l}"
      by (rule imageI)
    moreover have "Divisor e' = Divisor e" by (simp add: e'_def dv(3))
    ultimately show False using notin by simp
  qed
  have e'q: "e' \<in> set ?q'" using e'E by (simp add: contract_set[OF sv])
  have e'drop: "e' \<in> set (drop n ?q')" by (rule in_take_or_drop[OF e'q e'T])
  have "Cociente x \<le> Cociente e"
    by (rule sorted_desc_take_drop[OF contract_sorted[OF sv] e(1) xdrop])
  moreover have "Cociente e' \<le> Cociente x"
    by (rule sorted_desc_take_drop[OF contract_sorted[OF sv] x(1) e'drop])
  ultimately have "Cociente e' \<le> Cociente e" by simp
  then have "(of_int v' :: rat) / of_int dv \<le> of_int (Votos ?r) / of_int dv"
    by (simp add: e'_def dv(3))
  with dv(1) have "(of_int v' :: rat) \<le> of_int (Votos ?r)"
    by (simp add: divide_le_cancel)
  then have "v' \<le> Votos ?r" by simp
  with v have "v' = Votos ?r" by simp
  then have "?r' = ?r" by simp
  then have "?df' = df" by (simp add: list_update_same_conv i)
  with lt show False by simp
qed

lemma map_of_alloc:
  assumes "distinct (map label df)" and "i < length df"
  shows "map_of (map (\<lambda>r. (label r, g r)) df) (label (df ! i)) = Some (g (df ! i))"
proof (rule map_of_is_SomeI)
  show "distinct (map fst (map (\<lambda>r. (label r, g r)) df))"
    using assms(1) by (simp add: o_def)
  show "(label (df ! i), g (df ! i)) \<in> set (map (\<lambda>r. (label r, g r)) df)"
    using nth_mem[OF assms(2)] by force
qed

lemma frame_update:
  assumes "i < length ps" and "ps ! i = (n, v)"
  shows "frame (ps[i := (n, v')]) = (frame ps)[i := (frame ps ! i)\<lparr>Votos := v'\<rparr>]"
proof (rule nth_equalityI)
  show "length (frame (ps[i := (n, v')])) = length ((frame ps)[i := (frame ps ! i)\<lparr>Votos := v'\<rparr>])"
    by (simp add: length_frame)
next
  fix j assume "j < length (frame (ps[i := (n, v')]))"
  then have j: "j < length ps" by (simp add: length_frame)
  show "frame (ps[i := (n, v')]) ! j = (frame ps)[i := (frame ps ! i)\<lparr>Votos := v'\<rparr>] ! j"
  proof (cases "j = i")
    case True
    with assms show ?thesis by (simp add: frame_nth length_frame)
  next
    case False
    with j show ?thesis by (simp add: frame_nth length_frame)
  qed
qed













lemma astype_round_Finite: "astype_int (round_decimals 0 (Finite q)) = Inr (round_half_even q)"
  by simp









section \<open>The allocation sums to the seat count\<close>

text \<open>
  C1. For every ordered sequence of (name, votes) pairs with non-negative votes, at least one
  of them positive, and every \<open>seats > 0\<close>, the seats awarded by \<open>dhondt\<close> add up to exactly
  \<open>seats\<close>, and the allocation has one entry for every row of the input, in order. This
  holds whichever admissible sort \<open>sort_values\<close> is. (The proof only needs the input to be
  non-empty, which a positive vote count implies; see \<open>dhondt_alloc_sum\<close>.)
\<close>

theorem dhondt_seats_sum:
  assumes "sort_values_contract sv"
    and "\<forall>(n, v) \<in> set ps. 0 \<le> v" and "\<exists>(n, v) \<in> set ps. 0 < v" and "0 < seats"
  shows "sum_list (map snd (fst (dhondt sv (frame ps) seats))) = seats \<and>
         map fst (fst (dhondt sv (frame ps) seats)) = [0..<length ps]"
proof -
  from assms(3) have ne: "frame ps \<noteq> []"
    by (auto simp: frame_nil)
  have dl: "distinct (map label (frame ps))"
    by (simp add: frame_label)
  have "map fst (fst (dhondt sv (frame ps) seats)) = map label (frame ps)"
    by (simp add: dhondt_alloc[OF ne assms(4)] o_def)
  then show ?thesis
    using dhondt_alloc_sum[OF assms(1) ne dl assms(4)] by (simp add: frame_label)
qed

theorem dhondt_seats_sum_witness:
  "sort_values_contract (sort_values_stable :: (qrow \<Rightarrow> rat) \<Rightarrow> qrow list \<Rightarrow> qrow list) \<and>
   sum_list (map snd (fst (dhondt sort_values_stable (frame [(''X'', 5), (''Y'', 3)]) 3))) = 3 \<and>
   map fst (fst (dhondt sort_values_stable (frame [(''X'', 5), (''Y'', 3)]) 3)) = [0, 1]"
  using dhondt_seats_sum[OF stable_contract, of "[(''X'', 5), (''Y'', 3)]" 3]
  by (simp add: stable_contract)

section \<open>The empty result\<close>



section \<open>The quotient table\<close>

text \<open>
  C4. For a non-empty table and \<open>seats > 0\<close> the quotient table has (number of rows) times
  \<open>seats\<close> entries; it is the generated entries rearranged into non-increasing order of
  quotient; the rank of each entry is its 1-based position in that order; and an entry is
  marked as winning a seat exactly when its rank is at most \<open>seats\<close>.
\<close>

theorem dhondt_quotient_table:
  assumes "sort_values_contract sv" and "df \<noteq> []" and "0 < seats"
  shows "length (snd (dhondt sv df seats)) = length df * nat seats \<and>
         mset (map qrow.truncate (snd (dhondt sv df seats))) = mset (quotient_rows df seats) \<and>
         sorted (rev (map Cociente (snd (dhondt sv df seats)))) \<and>
         (\<forall>i < length (snd (dhondt sv df seats)).
            Rank (snd (dhondt sv df seats) ! i) = int i + 1 \<and>
            GanaEscano (snd (dhondt sv df seats) ! i) = (Rank (snd (dhondt sv df seats) ! i) \<le> seats))"
proof -
  let ?q = "sv Cociente (quotient_rows df seats)"
  have tab: "snd (dhondt sv df seats) = add_rank seats ?q"
    by (rule dhondt_table[OF assms(2,3)])
  have "length (add_rank seats ?q) = length df * nat seats"
    by (simp add: length_add_rank contract_length[OF assms(1)] length_quotient_rows)
  moreover have "mset (map qrow.truncate (add_rank seats ?q)) = mset (quotient_rows df seats)"
    by (simp add: map_truncate_add_rank contract_mset[OF assms(1)])
  moreover have "sorted (rev (map Cociente (add_rank seats ?q)))"
    by (simp add: map_Cociente_add_rank contract_sorted[OF assms(1)])
  moreover have "\<forall>i < length (add_rank seats ?q).
      Rank (add_rank seats ?q ! i) = int i + 1 \<and>
      GanaEscano (add_rank seats ?q ! i) = (Rank (add_rank seats ?q ! i) \<le> seats)"
    by (simp add: length_add_rank add_rank_nth)
  ultimately show ?thesis
    unfolding tab by blast
qed

theorem dhondt_quotient_table_witness:
  "length (snd (dhondt sort_values_stable (frame [(''P'', 7), (''Q'', 4)]) 2)) = 2 * nat 2 \<and>
   map Rank (snd (dhondt sort_values_stable (frame [(''P'', 7), (''Q'', 4)]) 2)) = [1, 2, 3, 4] \<and>
   map GanaEscano (snd (dhondt sort_values_stable (frame [(''P'', 7), (''Q'', 4)]) 2)) =
     [True, True, False, False] \<and>
   map Cociente (snd (dhondt sort_values_stable (frame [(''P'', 7), (''Q'', 4)]) 2)) =
     [7, 4, 7 / 2, 2]"
proof -
  have ne: "frame [(''P'', 7), (''Q'', 4)] \<noteq> []"
    by (simp add: frame_def)
  have len: "length (snd (dhondt sort_values_stable (frame [(''P'', 7), (''Q'', 4)]) 2)) = 2 * nat 2"
    using dhondt_quotient_table[OF stable_contract ne, of 2] by (simp add: length_frame)
  have r: "map Rank (snd (dhondt sort_values_stable (frame [(''P'', 7), (''Q'', 4)]) 2)) = [1, 2, 3, 4]"
    by code_simp
  have g: "map GanaEscano (snd (dhondt sort_values_stable (frame [(''P'', 7), (''Q'', 4)]) 2)) =
     [True, True, False, False]"
    by code_simp
  have c: "map Cociente (snd (dhondt sort_values_stable (frame [(''P'', 7), (''Q'', 4)]) 2)) =
     [7, 4, 7 / 2, 2]"
    by code_simp
  from len r g c show ?thesis by blast
qed

section \<open>Determinism\<close>



section \<open>Scenario A\<close>

lemma scenario_A_rows:
  "quotient_rows (frame [(''A'', 100), (''B'', 50), (''C'', 10)]) 3 =
    [\<lparr>idx = 0, q_Partido = ''A'', Divisor = 1, Cociente = 100\<rparr>,
     \<lparr>idx = 0, q_Partido = ''A'', Divisor = 2, Cociente = 50\<rparr>,
     \<lparr>idx = 0, q_Partido = ''A'', Divisor = 3, Cociente = 100 / 3\<rparr>,
     \<lparr>idx = 1, q_Partido = ''B'', Divisor = 1, Cociente = 50\<rparr>,
     \<lparr>idx = 1, q_Partido = ''B'', Divisor = 2, Cociente = 25\<rparr>,
     \<lparr>idx = 1, q_Partido = ''B'', Divisor = 3, Cociente = 50 / 3\<rparr>,
     \<lparr>idx = 2, q_Partido = ''C'', Divisor = 1, Cociente = 10\<rparr>,
     \<lparr>idx = 2, q_Partido = ''C'', Divisor = 2, Cociente = 5\<rparr>,
     \<lparr>idx = 2, q_Partido = ''C'', Divisor = 3, Cociente = 10 / 3\<rparr>]"
  by code_simp

text \<open>
  C7. Scenario A: for the parties A = 100, B = 50, C = 10 and three seats, \<open>dhondt\<close> awards
  A two seats, B one and C none, and the two quotients equal to 50, A's at divisor 2 and B's
  at divisor 1, are both among the three top-ranked entries. The two tie with each other, but
  both win whichever of them the sort puts first.
\<close>

theorem scenario_A:
  assumes "sort_values_contract sv"
  shows "fst (dhondt sv (frame [(''A'', 100), (''B'', 50), (''C'', 10)]) 3) = [(0, 2), (1, 1), (2, 0)] \<and>
    (\<exists>e \<in> set (snd (dhondt sv (frame [(''A'', 100), (''B'', 50), (''C'', 10)]) 3)).
       q_Partido e = ''A'' \<and> Divisor e = 2 \<and> Cociente e = 50 \<and> Rank e \<le> 3 \<and> GanaEscano e) \<and>
    (\<exists>e \<in> set (snd (dhondt sv (frame [(''A'', 100), (''B'', 50), (''C'', 10)]) 3)).
       q_Partido e = ''B'' \<and> Divisor e = 1 \<and> Cociente e = 50 \<and> Rank e \<le> 3 \<and> GanaEscano e)"
proof -
  let ?df = "frame [(''A'', 100), (''B'', 50), (''C'', 10)]"
  let ?E = "quotient_rows ?df 3"
  let ?top = "filter (\<lambda>e. 50 \<le> Cociente e) ?E"
  have ne: "?df \<noteq> []" by (simp add: frame_nil)
  have top: "?top = [\<lparr>idx = 0, q_Partido = ''A'', Divisor = 1, Cociente = 100\<rparr>,
     \<lparr>idx = 0, q_Partido = ''A'', Divisor = 2, Cociente = 50\<rparr>,
     \<lparr>idx = 1, q_Partido = ''B'', Divisor = 1, Cociente = 50\<rparr>]"
    unfolding scenario_A_rows by simp
  have n: "length ?top = nat 3" unfolding top by simp
  have df: "?df = [\<lparr>label = 0, Partido = ''A'', Votos = 100\<rparr>, \<lparr>label = 1, Partido = ''B'', Votos = 50\<rparr>,
      \<lparr>label = 2, Partido = ''C'', Votos = 10\<rparr>]"
    by (simp add: frame_def)
  have alloc: "fst (dhondt sv ?df 3) = [(0, 2), (1, 1), (2, 0)]"
    unfolding dhondt_alloc_threshold[OF assms ne _ n, simplified] top
    unfolding df by simp
  have tk: "set (take (nat 3) (sv Cociente ?E)) = set ?top"
    using contract_take_threshold[OF assms n] by (metis set_mset_mset)
  have tab: "snd (dhondt sv ?df 3) = add_rank 3 (sv Cociente ?E)"
    by (rule dhondt_table[OF ne]) simp
  have a: "\<lparr>idx = 0, q_Partido = ''A'', Divisor = 2, Cociente = 50\<rparr> \<in> set (take (nat 3) (sv Cociente ?E))"
    unfolding tk top by simp
  have b: "\<lparr>idx = 1, q_Partido = ''B'', Divisor = 1, Cociente = 50\<rparr> \<in> set (take (nat 3) (sv Cociente ?E))"
    unfolding tk top by simp
  from ranked_of_taken[OF a] obtain ra where ra: "ra \<in> set (add_rank 3 (sv Cociente ?E))"
    "qrow.truncate ra = \<lparr>idx = 0, q_Partido = ''A'', Divisor = 2, Cociente = 50\<rparr>" "Rank ra \<le> 3" "GanaEscano ra"
    by blast
  from ranked_of_taken[OF b] obtain rb where rb: "rb \<in> set (add_rank 3 (sv Cociente ?E))"
    "qrow.truncate rb = \<lparr>idx = 1, q_Partido = ''B'', Divisor = 1, Cociente = 50\<rparr>" "Rank rb \<le> 3" "GanaEscano rb"
    by blast
  from ra(2) have ra': "q_Partido ra = ''A'' \<and> Divisor ra = 2 \<and> Cociente ra = 50"
    by (cases ra) (simp add: qrow.truncate_def)
  from rb(2) have rb': "q_Partido rb = ''B'' \<and> Divisor rb = 1 \<and> Cociente rb = 50"
    by (cases rb) (simp add: qrow.truncate_def)
  show ?thesis
    unfolding tab using alloc ra ra' rb rb' unfolding tab by blast
qed

theorem scenario_A_witness:
  "fst (dhondt sort_values_stable (frame [(''A'', 100), (''B'', 50), (''C'', 10)]) 3) =
     [(0, 2), (1, 1), (2, 0)] \<and>
   map (\<lambda>e. (q_Partido e, Divisor e, Cociente e))
     (filter GanaEscano (snd (dhondt sort_values_stable (frame [(''A'', 100), (''B'', 50), (''C'', 10)]) 3))) =
     [(''A'', 1, 100), (''A'', 2, 50), (''B'', 1, 50)]"
proof -
  have "map (\<lambda>e. (q_Partido e, Divisor e, Cociente e))
     (filter GanaEscano (snd (dhondt sort_values_stable (frame [(''A'', 100), (''B'', 50), (''C'', 10)]) 3))) =
     [(''A'', 1, 100), (''A'', 2, 50), (''B'', 1, 50)]"
    by code_simp
  then show ?thesis
    using scenario_A[OF stable_contract] by blast
qed

section \<open>The order of ties\<close>




section \<open>Monotonicity\<close>

text \<open>
  C5. Monotonicity: raising the votes of one row, with the other rows and the seat count
  unchanged, never lowers the number of seats \<open>dhondt\<close> awards to that row. This holds for
  every sort that meets the contract, whatever it does with ties. (With \<open>seats <= 0\<close> both
  allocations are the empty series.)
\<close>

theorem dhondt_monotone:
  assumes "sort_values_contract sv" and "i < length ps" and "ps ! i = (n, v)" and "v \<le> v'"
  shows "(seats \<le> 0 \<and> fst (dhondt sv (frame ps) seats) = [] \<and>
            fst (dhondt sv (frame (ps[i := (n, v')])) seats) = []) \<or>
         (\<exists>k k'. map_of (fst (dhondt sv (frame ps) seats)) i = Some k \<and>
                  map_of (fst (dhondt sv (frame (ps[i := (n, v')])) seats)) i = Some k' \<and>
                  k \<le> k')"
proof (cases "seats \<le> 0")
  case True
  then show ?thesis by (simp add: dhondt_def)
next
  case False
  then have s: "0 < seats" by simp
  let ?df = "frame ps"
  let ?df' = "?df[i := (?df ! i)\<lparr>Votos := v'\<rparr>]"
  have upd: "frame (ps[i := (n, v')]) = ?df'"
    by (rule frame_update[OF assms(2,3)])
  have i: "i < length ?df" using assms(2) by (simp add: length_frame)
  have i': "i < length ?df'" using i by simp
  have d: "distinct (map label ?df)" by (simp add: frame_label)
  have d': "distinct (map label ?df')"
    by (rule distinct_label_update[OF d i]) simp
  have ne: "?df \<noteq> []" "?df' \<noteq> []" using i by auto
  have li: "label (?df ! i) = i" using assms(2) by (simp add: frame_nth)
  have li': "label (?df' ! i) = i" using i li by simp
  have vi: "Votos (?df ! i) \<le> v'" using assms(2,3,4) by (simp add: frame_nth)
  let ?W = "take (nat seats) (sv Cociente (quotient_rows ?df seats))"
  let ?W' = "take (nat seats) (sv Cociente (quotient_rows ?df' seats))"
  have a: "map_of (fst (dhondt sv ?df seats)) i = Some (int (count_list (map idx ?W) i))"
    unfolding dhondt_alloc[OF ne(1) s]
    using map_of_alloc[OF d i, of "\<lambda>r. int (count_list (map idx ?W) (label r))"] li by simp
  have a': "map_of (fst (dhondt sv ?df' seats)) i = Some (int (count_list (map idx ?W') i))"
    unfolding dhondt_alloc[OF ne(2) s]
    using map_of_alloc[OF d' i', of "\<lambda>r. int (count_list (map idx ?W') (label r))"] li' by simp
  have "count_list (map idx ?W) i \<le> count_list (map idx ?W') i"
    unfolding count_list_map_filter using winners_monotone[OF assms(1) d i vi] li by simp
  with a a' show ?thesis unfolding upd by simp
qed

theorem dhondt_monotone_witness:
  "map_of (fst (dhondt sort_values_stable (frame [(''A'', 100), (''B'', 50), (''C'', 10)]) 3)) 1 = Some 1 \<and>
   map_of (fst (dhondt sort_values_stable (frame ([(''A'', 100), (''B'', 50), (''C'', 10)][1 := (''B'', 120)])) 3)) 1 = Some 2"
proof -
  have "map_of (fst (dhondt sort_values_stable (frame [(''A'', 100), (''B'', 50), (''C'', 10)]) 3)) 1 = Some 1"
    by code_simp
  moreover have "map_of (fst (dhondt sort_values_stable (frame ([(''A'', 100), (''B'', 50), (''C'', 10)][1 := (''B'', 120)])) 3)) 1 = Some 2"
    by code_simp
  ultimately show ?thesis
    using dhondt_monotone[OF stable_contract, of 1 "[(''A'', 100), (''B'', 50), (''C'', 10)]" "''B''" 50 120 3]
    by simp
qed

section \<open>The highlighted quotients\<close>




section \<open>The percentage column\<close>



section \<open>The normalizer's vote column\<close>



end
